theory Spec2Isabelle
  imports Complex_Main "HOL-Library.Char_ord" "HOL-Library.List_Lexorder" "HOL-Library.Product_Lexorder"
begin

section \<open>Data model\<close>

text \<open>
  The dataclasses of \<^verbatim>\<open>main.py\<close>. Python integers are unbounded, hence \<open>int\<close>.
  A \<^verbatim>\<open>Dict\<close> is modelled by the list of its items (looked up with \<open>map_of\<close>), which keeps
  every function below executable and every table finite.
\<close>

record edge =
  to_id :: string
  minutes :: int
  line :: string
  mode :: string

record fare_session =
  start_minute :: int
  paid_zones :: int

text \<open>The exceptions the modelled functions can raise.\<close>

datatype error = KeyError | ValueError

type_synonym graph = "(string \<times> edge list) list"

section \<open>Fare engine\<close>

text \<open>
  Python's built-in \<^verbatim>\<open>max\<close> over the keys of a dictionary: \<^verbatim>\<open>ValueError\<close> on an empty
  one, otherwise the largest key.
\<close>

fun max_key :: "(int \<times> 'a) list \<Rightarrow> error + int" where
  "max_key [] = Inl ValueError"
| "max_key ((k, v) # kvs) = Inr (fold max (map fst kvs) k)"

text \<open>
  Python's \<^verbatim>\<open>max(a, b)\<close> on two arguments keeps \<open>a\<close> unless \<open>b\<close> is strictly greater.
  Fare amounts are Python floats; the engine only looks them up, subtracts two of them and
  compares with zero, so the amount type is left abstract: any type with \<open>0\<close>, \<open>-\<close> and an order.
\<close>

definition max2 :: "'a::ord \<Rightarrow> 'a \<Rightarrow> 'a" where
  "max2 a b = (if a < b then b else a)"

text \<open>
  \<^verbatim>\<open>zone_fares.get(required_zones, zone_fares[max(zone_fares)])\<close>: the default argument is
  evaluated first (and raises on an empty table), then the lookup.
\<close>

definition fare_for_zones :: "int \<Rightarrow> (int \<times> 'a) list \<Rightarrow> error + 'a" where
  "fare_for_zones required_zones zone_fares =
     (case max_key zone_fares of
        Inl e \<Rightarrow> Inl e
      | Inr top_key \<Rightarrow>
          (case map_of zone_fares top_key of
             None \<Rightarrow> Inl KeyError
           | Some cap \<Rightarrow>
               Inr (case map_of zone_fares required_zones of None \<Rightarrow> cap | Some fare \<Rightarrow> fare)))"

definition compute_fare_with_transfer_window ::
  "fare_session option \<Rightarrow> int \<Rightarrow> int \<Rightarrow> (int \<times> 'a) list \<Rightarrow> int
     \<Rightarrow> error + ('a::{zero,minus,ord} \<times> fare_session)" where
  "compute_fare_with_transfer_window session trip_time_minute required_zones zone_fares window_minutes =
     (case fare_for_zones required_zones zone_fares of
        Inl e \<Rightarrow> Inl e
      | Inr trip_cost \<Rightarrow>
          (let new_session =
                 Inr (trip_cost, \<lparr>start_minute = trip_time_minute, paid_zones = required_zones\<rparr>)
           in case session of
                None \<Rightarrow> new_session
              | Some s \<Rightarrow>
                  if trip_time_minute - start_minute s > window_minutes then new_session
                  else
                    (case fare_for_zones (paid_zones s) zone_fares of
                       Inl e \<Rightarrow> Inl e
                     | Inr already_paid_cost \<Rightarrow>
                         if required_zones \<le> paid_zones s then Inr (0, s)
                         else Inr (max2 0 (trip_cost - already_paid_cost),
                                   \<lparr>start_minute = start_minute s, paid_zones = required_zones\<rparr>))))"

text \<open>The fare table of the demo data and of the concrete scenarios.\<close>

definition demo_fares :: "(int \<times> real) list" where
  "demo_fares = [(1, 2.50), (2, 3.75), (3, 4.90)]"

section \<open>Path analyzer\<close>

text \<open>
  \<^verbatim>\<open>edge_info\<close>: the first connection of \<open>a\<close> that leads to \<open>b\<close>. \<^verbatim>\<open>graph[a]\<close> raises
  \<^verbatim>\<open>KeyError\<close> for an unknown station, and the function raises \<^verbatim>\<open>ValueError\<close> when
  no connection leads to \<open>b\<close>.
\<close>

fun first_edge_to :: "edge list \<Rightarrow> string \<Rightarrow> error + edge" where
  "first_edge_to [] b = Inl ValueError"
| "first_edge_to (e # es) b = (if to_id e = b then Inr e else first_edge_to es b)"

definition edge_info :: "graph \<Rightarrow> string \<Rightarrow> string \<Rightarrow> error + edge" where
  "edge_info graph a b =
     (case map_of graph a of None \<Rightarrow> Inl KeyError | Some es \<Rightarrow> first_edge_to es b)"

text \<open>
  The loop of \<^verbatim>\<open>infer_mode_for_path\<close> over \<^verbatim>\<open>zip(path, path[1:])\<close>, carrying
  \<^verbatim>\<open>saw_train\<close>. Python's \<^verbatim>\<open>str.upper\<close> is a library function (Unicode case mapping) and is
  taken as the parameter \<open>upper\<close>.
\<close>

fun scan_segments ::
  "(string \<Rightarrow> string) \<Rightarrow> graph \<Rightarrow> (string \<times> string) list \<Rightarrow> bool \<Rightarrow> error + bool" where
  "scan_segments upper graph [] saw_train = Inr saw_train"
| "scan_segments upper graph ((a, b) # segments) saw_train =
     (case edge_info graph a b of
        Inl err \<Rightarrow> Inl err
      | Inr e \<Rightarrow>
          scan_segments upper graph segments
            (if upper (mode e) = ''TRAIN'' then True else saw_train))"

definition infer_mode_for_path ::
  "(string \<Rightarrow> string) \<Rightarrow> graph \<Rightarrow> string list \<Rightarrow> error + string" where
  "infer_mode_for_path upper graph path =
     (if length path < 2 then Inr ''TRAIN''
      else
        (case scan_segments upper graph (zip path (drop 1 path)) False of
           Inl err \<Rightarrow> Inl err
         | Inr saw_train \<Rightarrow> Inr (if saw_train then ''TRAIN'' else ''BUS'')))"

text \<open>An upper-casing of ASCII letters, used to run the functions on concrete labels.\<close>

definition ascii_upper :: "string \<Rightarrow> string" where
  "ascii_upper label =
     map (\<lambda>c. if CHR ''a'' \<le> c \<and> c \<le> CHR ''z'' then char_of (of_char c - (32::nat)) else c) label"

section \<open>Shortest-path finder\<close>

text \<open>
  The dictionaries \<^verbatim>\<open>dist\<close> (here \<open>dists\<close>) and \<^verbatim>\<open>prev\<close> are only looked up and updated, so they
  are maps.
  The heap \<^verbatim>\<open>pq\<close> is the list of its entries: \<^verbatim>\<open>heappush\<close> adds an entry and
  \<^verbatim>\<open>heappop\<close> removes and returns the least entry in Python's tuple order (minutes first,
  then the station identifier), which is all that the heap layout determines.
\<close>

type_synonym dist_map = "string \<rightharpoonup> int"
type_synonym prev_map = "string \<rightharpoonup> string option"
type_synonym heap = "(int \<times> string) list"

definition heappush :: "heap \<Rightarrow> int \<times> string \<Rightarrow> heap" where
  "heappush pq entry = entry # pq"

definition heappop :: "heap \<Rightarrow> (int \<times> string) \<times> heap" where
  "heappop pq = (min_list pq, remove1 (min_list pq) pq)"

text \<open>The \<^verbatim>\<open>for e in graph[cur]\<close> loop.\<close>

fun relax :: "string \<Rightarrow> int \<Rightarrow> edge list \<Rightarrow> dist_map \<times> prev_map \<times> heap
    \<Rightarrow> dist_map \<times> prev_map \<times> heap" where
  "relax cur cur_dist [] state = state"
| "relax cur cur_dist (e # es) (dists, prev, pq) =
     (let nd = cur_dist + minutes e in
      if (case dists (to_id e) of None \<Rightarrow> True | Some d \<Rightarrow> nd < d)
      then relax cur cur_dist es
             (dists(to_id e \<mapsto> nd), prev(to_id e \<mapsto> Some cur), heappush pq (nd, to_id e))
      else relax cur cur_dist es (dists, prev, pq))"

text \<open>
  The \<^verbatim>\<open>while pq\<close> loop. It ends when the heap is empty or when the goal is popped unvisited
  (\<^verbatim>\<open>break\<close>), and raises \<^verbatim>\<open>KeyError\<close> when a popped station has no entry in the graph.
  Only \<^verbatim>\<open>dist\<close> and \<^verbatim>\<open>prev\<close> are read after the loop, so they are what it returns.
\<close>

function search :: "graph \<Rightarrow> string \<Rightarrow> dist_map \<Rightarrow> prev_map \<Rightarrow> heap \<Rightarrow> string set
    \<Rightarrow> error + (dist_map \<times> prev_map)" where
  "search graph goal_id dists prev pq visited =
     (if pq = [] then Inr (dists, prev)
      else
        (case heappop pq of
           ((cur_dist, cur), pq') \<Rightarrow>
             if cur \<in> visited then search graph goal_id dists prev pq' visited
             else if cur = goal_id then Inr (dists, prev)
             else
               (case map_of graph cur of
                  None \<Rightarrow> Inl KeyError
                | Some es \<Rightarrow>
                    (case relax cur cur_dist es (dists, prev, pq') of
                       (dists', prev', pq'') \<Rightarrow>
                         search graph goal_id dists' prev' pq'' (insert cur visited)))))"
  by pat_completeness auto
termination
proof (relation "measures [\<lambda>(graph, goal_id, dists, prev, pq, visited). card (fst ` set graph - visited),
                           \<lambda>(graph, goal_id, dists, prev, pq, visited). length pq]")
  show "wf (measures [\<lambda>(graph, goal_id, dists, prev, pq, visited). card (fst ` set graph - visited),
                      \<lambda>(graph, goal_id, dists, prev, pq, visited). length (pq :: heap)])"
    by simp
next
  fix graph :: graph and goal_id :: string and dists :: dist_map and prev :: prev_map
    and pq pq' :: heap and visited :: "string set" and popped cur_dist cur
  assume "pq \<noteq> []" and "(popped, pq') = heappop pq"
  then have "length pq' < length pq"
    by (simp add: heappop_def length_remove1 min_list_Min)
  then show "((graph, goal_id, dists, prev, pq', visited), (graph, goal_id, dists, prev, pq, visited))
      \<in> measures [\<lambda>(graph, goal_id, dists, prev, pq, visited). card (fst ` set graph - visited),
                  \<lambda>(graph, goal_id, dists, prev, pq, visited). length pq]"
    by simp
next
  fix graph :: graph and goal_id :: string and dists dists' :: dist_map and prev prev' :: prev_map
    and pq pq' pq'' :: heap and visited :: "string set" and cur es
  assume "cur \<notin> visited" and "map_of graph cur = Some es"
  then have "cur \<in> fst ` set graph - visited"
    by (metis DiffI map_of_eq_None_iff option.distinct(1))
  then have "card (fst ` set graph - insert cur visited) < card (fst ` set graph - visited)"
    by (metis Diff_insert card_Diff1_less finite_Diff finite_imageI finite_set)
  then show "((graph, goal_id, dists', prev', pq'', insert cur visited),
              (graph, goal_id, dists, prev, pq, visited))
      \<in> measures [\<lambda>(graph, goal_id, dists, prev, pq, visited). card (fst ` set graph - visited),
                  \<lambda>(graph, goal_id, dists, prev, pq, visited). length pq]"
    by simp
qed

declare search.simps [simp del]

text \<open>
  The path reconstruction \<^verbatim>\<open>while cur is not None\<close>, with \<^verbatim>\<open>prev.get(cur)\<close> reading
  \<^verbatim>\<open>None\<close> for a missing key. Nothing in the loop itself bounds it (a cycle in \<^verbatim>\<open>prev\<close>
  keeps it running), so not returning is the value \<open>None\<close>.
\<close>

partial_function (option) walk_back :: "prev_map \<Rightarrow> string option \<Rightarrow> string list \<Rightarrow> string list option" where
  "walk_back prev cur path =
     (case cur of
        None \<Rightarrow> Some path
      | Some c \<Rightarrow> walk_back prev (case prev c of None \<Rightarrow> None | Some p \<Rightarrow> p) (path @ [c]))"

declare walk_back.simps [code]

text \<open>
  \<^verbatim>\<open>dijkstra_path\<close>. The outer \<open>option\<close> is \<open>None\<close> when the call does not return; inside,
  \<open>Inl\<close> is a raised exception, \<open>Inr None\<close> the "no path" result and \<open>Inr (Some (path, total))\<close>
  the found path with its total minutes.
\<close>

definition dijkstra_path ::
  "graph \<Rightarrow> string \<Rightarrow> string \<Rightarrow> (error + (string list \<times> int) option) option" where
  "dijkstra_path graph start_id goal_id =
     (if map_of graph start_id = None \<or> map_of graph goal_id = None then Some (Inr None)
      else
        (case search graph goal_id [start_id \<mapsto> 0] [start_id \<mapsto> None] [(0, start_id)] {} of
           Inl err \<Rightarrow> Some (Inl err)
         | Inr (dists, prev) \<Rightarrow>
             (case dists goal_id of
                None \<Rightarrow> Some (Inr None)
              | Some goal_dist \<Rightarrow>
                  (case walk_back prev (Some goal_id) [] of
                     None \<Rightarrow> None
                   | Some path \<Rightarrow> Some (Inr (Some (rev path, goal_dist)))))))"

section \<open>Networks, walks and their minutes\<close>

text \<open>The connections leaving a station (none for an unknown station).\<close>

definition connections :: "graph \<Rightarrow> string \<Rightarrow> edge list" where
  "connections graph a = (case map_of graph a of None \<Rightarrow> [] | Some es \<Rightarrow> es)"

text \<open>
  \<open>walk graph a es b\<close>: the connections \<open>es\<close>, taken one after the other, lead from \<open>a\<close> to \<open>b\<close>
  in the network. The stations on the way are \<open>a # map to_id es\<close>, and the minutes of the walk
  are the sum of the minutes of its connections.
\<close>

fun walk :: "graph \<Rightarrow> string \<Rightarrow> edge list \<Rightarrow> string \<Rightarrow> bool" where
  "walk graph a [] b = (a = b)"
| "walk graph a (e # es) b = (e \<in> set (connections graph a) \<and> walk graph (to_id e) es b)"

definition total_minutes :: "edge list \<Rightarrow> int" where
  "total_minutes es = sum_list (map minutes es)"

text \<open>The data model's invariants: no negative travel time, and every connection leads to a station.\<close>

definition nonneg_minutes :: "graph \<Rightarrow> bool" where
  "nonneg_minutes graph = list_all (\<lambda>(a, es). list_all (\<lambda>e. 0 \<le> minutes e) es) graph"

definition closed_network :: "graph \<Rightarrow> bool" where
  "closed_network graph =
     list_all (\<lambda>(a, es). list_all (\<lambda>e. map_of graph (to_id e) \<noteq> None) es) graph"

text \<open>A network is simple when no station has two connections to the same station.\<close>

definition simple_network :: "graph \<Rightarrow> bool" where
  "simple_network graph = list_all (\<lambda>(a, es). distinct (map to_id es)) graph"

text \<open>
  \<open>shortest graph a b d\<close>: no walk from \<open>a\<close> to \<open>b\<close> takes fewer than \<open>d\<close> minutes.
\<close>

definition shortest :: "graph \<Rightarrow> string \<Rightarrow> string \<Rightarrow> int \<Rightarrow> bool" where
  "shortest graph a b d = (\<forall>es. walk graph a es b \<longrightarrow> d \<le> total_minutes es)"

section \<open>Invariants of the search\<close>

text \<open>
  \<open>tree_walk graph start_id prev visited v es\<close>: following \<^verbatim>\<open>prev\<close> back from \<open>v\<close> reaches
  \<open>start_id\<close> through visited stations only, and \<open>es\<close> are the connections of that chain, read
  from the start.
\<close>

inductive tree_walk :: "graph \<Rightarrow> string \<Rightarrow> prev_map \<Rightarrow> string set \<Rightarrow> string \<Rightarrow> edge list \<Rightarrow> bool"
  for graph start_id prev visited where
    root: "prev start_id = Some None \<Longrightarrow> tree_walk graph start_id prev visited start_id []"
  | step: "tree_walk graph start_id prev visited u es \<Longrightarrow> u \<in> visited \<Longrightarrow>
           prev v = Some (Some u) \<Longrightarrow> e \<in> set (connections graph u) \<Longrightarrow> to_id e = v \<Longrightarrow>
           tree_walk graph start_id prev visited v (es @ [e])"

text \<open>A connection \<open>e\<close> of \<open>u\<close> is relaxed when the distance of its target is at most that of
  \<open>u\<close> plus its minutes.\<close>

definition relaxed :: "dist_map \<Rightarrow> string \<Rightarrow> edge \<Rightarrow> bool" where
  "relaxed dists u e =
     (\<exists>du dv. dists u = Some du \<and> dists (to_id e) = Some dv \<and> dv \<le> du + minutes e)"

text \<open>
  The loop invariant. \<open>pending\<close> holds the connections of the station being expanded that the
  inner loop has not reached yet; it is empty at the head of the outer loop.
\<close>

definition search_inv ::
  "graph \<Rightarrow> string \<Rightarrow> string set \<Rightarrow> (string \<times> edge) set \<Rightarrow> dist_map \<Rightarrow> prev_map \<Rightarrow> heap \<Rightarrow> bool" where
  "search_inv graph start_id visited pending dists prev pq =
     (dists start_id = Some 0 \<and> prev start_id = Some None
      \<and> (\<forall>v d. dists v = Some d \<longrightarrow>
            (\<exists>es. tree_walk graph start_id prev visited v es \<and> total_minutes es = d))
      \<and> (\<forall>u \<in> visited. \<exists>d. dists u = Some d \<and> shortest graph start_id u d)
      \<and> (\<forall>u \<in> visited. \<forall>e \<in> set (connections graph u). (u, e) \<in> pending \<or> relaxed dists u e)
      \<and> (\<forall>v d. dists v = Some d \<longrightarrow> v \<notin> visited \<longrightarrow> (d, v) \<in> set pq)
      \<and> (\<forall>(d, v) \<in> set pq. \<exists>d'. dists v = Some d' \<and> d' \<le> d))"

text \<open>
  What the search keeps true whatever the travel times are: every station with a distance is
  reached by a walk from the start, and every heap entry names a station of the network that
  has a distance.
\<close>

definition reach_inv :: "graph \<Rightarrow> string \<Rightarrow> dist_map \<Rightarrow> heap \<Rightarrow> bool" where
  "reach_inv graph start_id dists pq =
     ((\<forall>v d. dists v = Some d \<longrightarrow> (\<exists>es. walk graph start_id es v))
      \<and> (\<forall>(d, v) \<in> set pq. map_of graph v \<noteq> None \<and> dists v \<noteq> None))"

text \<open>A small network: A-B 4 min (train), B-C 3 min (bus), A-C 10 min (bus), D isolated.\<close>

definition demo_graph :: graph where
  "demo_graph =
     [(''A'', [\<lparr>to_id = ''B'', minutes = 4, line = ''Expo'', mode = ''train''\<rparr>,
               \<lparr>to_id = ''C'', minutes = 10, line = ''R5'', mode = ''Bus''\<rparr>]),
      (''B'', [\<lparr>to_id = ''A'', minutes = 4, line = ''Expo'', mode = ''train''\<rparr>,
               \<lparr>to_id = ''C'', minutes = 3, line = ''99'', mode = ''bus''\<rparr>]),
      (''C'', [\<lparr>to_id = ''B'', minutes = 3, line = ''99'', mode = ''bus''\<rparr>,
               \<lparr>to_id = ''A'', minutes = 10, line = ''R5'', mode = ''Bus''\<rparr>]),
      (''D'', [])]"

section \<open>Fare lookup\<close>

lemma max_key_Inr:
  "zone_fares \<noteq> [] \<Longrightarrow> max_key zone_fares = Inr (Max (fst ` set zone_fares))"
proof (cases zone_fares)
  case Nil
  assume "zone_fares \<noteq> []"
  with Nil show ?thesis by simp
next
  case (Cons kv kvs)
  obtain k v where kv: "kv = (k, v)" by (cases kv)
  have "fold max (map fst kvs) k = Max (set (k # map fst kvs))"
    by (simp only: Max.set_eq_fold)
  with Cons kv show ?thesis by simp
qed

lemma max_key_in_table:
  assumes "zone_fares \<noteq> []"
  shows "\<exists>cap. map_of zone_fares (Max (fst ` set zone_fares)) = Some cap"
proof -
  have "Max (fst ` set zone_fares) \<in> fst ` set zone_fares"
    using assms by (intro Max_in) auto
  then show ?thesis
    by (metis map_of_eq_None_iff not_Some_eq)
qed

lemma fare_for_zones_total:
  assumes "zone_fares \<noteq> []"
  shows "\<exists>fare. fare_for_zones required_zones zone_fares = Inr fare"
proof -
  obtain cap where "map_of zone_fares (Max (fst ` set zone_fares)) = Some cap"
    using max_key_in_table [OF assms] by blast
  then show ?thesis
    by (simp add: fare_for_zones_def max_key_Inr [OF assms])
qed

text \<open>
  Claim C7. On a non-empty fare table the lookup always returns a fare and never raises; a zone
  count above the largest tabulated key gets the fare of that largest key, and a tabulated key
  gets its own fare.
\<close>

theorem fare_for_zones_never_fails:
  assumes "zone_fares \<noteq> []"
  shows "(\<exists>fare. fare_for_zones required_zones zone_fares = Inr fare)
       \<and> (Max (fst ` set zone_fares) < required_zones \<longrightarrow>
            (\<exists>cap. map_of zone_fares (Max (fst ` set zone_fares)) = Some cap
                 \<and> fare_for_zones required_zones zone_fares = Inr cap))
       \<and> (\<forall>fare. map_of zone_fares required_zones = Some fare \<longrightarrow>
            fare_for_zones required_zones zone_fares = Inr fare)"
proof -
  obtain cap where cap: "map_of zone_fares (Max (fst ` set zone_fares)) = Some cap"
    using max_key_in_table [OF assms] by blast
  have unfolded: "fare_for_zones required_zones zone_fares =
      Inr (case map_of zone_fares required_zones of None \<Rightarrow> cap | Some fare \<Rightarrow> fare)"
    by (simp add: fare_for_zones_def max_key_Inr [OF assms] cap)
  have beyond: "map_of zone_fares required_zones = None"
    if "Max (fst ` set zone_fares) < required_zones"
  proof -
    have "required_zones \<notin> fst ` set zone_fares"
    proof
      assume "required_zones \<in> fst ` set zone_fares"
      then have "required_zones \<le> Max (fst ` set zone_fares)"
        by (intro Max_ge) simp_all
      with that show False by simp
    qed
    then show ?thesis by (simp add: map_of_eq_None_iff)
  qed
  show ?thesis
    using unfolded cap beyond by auto
qed

theorem fare_for_zones_never_fails_witness:
  "demo_fares \<noteq> []
   \<and> fare_for_zones 7 demo_fares = Inr 4.90
   \<and> fare_for_zones 2 demo_fares = Inr 3.75"
proof -
  have ne: "demo_fares \<noteq> []" by (simp add: demo_fares_def)
  have top: "Max (fst ` set demo_fares) = 3" by (simp add: demo_fares_def)
  have "\<exists>cap. map_of demo_fares 3 = Some cap \<and> fare_for_zones 7 demo_fares = Inr cap"
    using fare_for_zones_never_fails [OF ne, of 7] by (simp add: top)
  moreover have "map_of demo_fares 3 = Some 4.90"
    by (simp add: demo_fares_def)
  ultimately have "fare_for_zones 7 demo_fares = Inr 4.90"
    by auto
  moreover have "fare_for_zones 2 demo_fares = Inr 3.75"
    using fare_for_zones_never_fails [OF ne, of 2] by (simp add: demo_fares_def)
  ultimately show ?thesis using ne by simp
qed

section \<open>Transfer-window fare engine\<close>

lemma max2_linorder: "max2 a b = max (a::'a::linorder) b"
  by (auto simp: max2_def max_def)

lemma new_session_result:
  assumes "fare_for_zones required_zones zone_fares = Inr trip_cost"
    and "session = None \<or> window_minutes < trip_time_minute - start_minute (the session)"
  shows "compute_fare_with_transfer_window session trip_time_minute required_zones zone_fares window_minutes
       = Inr (trip_cost, \<lparr>start_minute = trip_time_minute, paid_zones = required_zones\<rparr>)"
  using assms by (cases session) (auto simp: compute_fare_with_transfer_window_def)

lemma within_window_result:
  assumes "fare_for_zones required_zones zone_fares = Inr trip_cost"
    and "fare_for_zones (paid_zones s) zone_fares = Inr already_paid_cost"
    and "trip_time_minute - start_minute s \<le> window_minutes"
  shows "compute_fare_with_transfer_window (Some s) trip_time_minute required_zones zone_fares window_minutes
       = (if required_zones \<le> paid_zones s then Inr (0, s)
          else Inr (max2 0 (trip_cost - already_paid_cost),
                    \<lparr>start_minute = start_minute s, paid_zones = required_zones\<rparr>))"
  using assms by (simp add: compute_fare_with_transfer_window_def)

text \<open>
  Claim C1, as amended. On the demo table with a 60 minute window, a first trip (no session) at
  minute 540 with \<open>required_zones = 1\<close> is charged the tabulated one-zone fare 2.50 and opens the
  session (540, 1). The engine has no flat-fare input: a bus-like trip is priced as one zone.
\<close>

theorem scenario_first_trip:
  "compute_fare_with_transfer_window None 540 1 demo_fares 60
     = Inr (2.50, \<lparr>start_minute = 540, paid_zones = 1\<rparr>)"
  by (simp add: compute_fare_with_transfer_window_def fare_for_zones_def demo_fares_def)

text \<open>Claim C1 as stated (a charge of exactly 2.00) does not hold of the engine.\<close>

theorem scenario_first_trip_not_flat_fare:
  "compute_fare_with_transfer_window None 540 1 demo_fares 60
     \<noteq> Inr (2.00, \<lparr>start_minute = 540, paid_zones = 1\<rparr>)"
  by (simp add: compute_fare_with_transfer_window_def fare_for_zones_def demo_fares_def)

text \<open>
  Claim C3. For an active session \<open>s\<close> and a non-empty fare table, a trip at exactly
  \<open>start_minute s + window_minutes\<close> is handled by the within-window rules (free when the zone
  level is covered, otherwise the upgrade difference with the start minute kept), and a trip one
  minute later opens a new session at the trip time, charged the full fare of its zone level.
\<close>

theorem window_boundary:
  assumes "zone_fares \<noteq> []"
  shows "\<exists>trip_cost already_paid_cost.
           fare_for_zones required_zones zone_fares = Inr trip_cost
         \<and> fare_for_zones (paid_zones s) zone_fares = Inr already_paid_cost
         \<and> compute_fare_with_transfer_window (Some s) (start_minute s + window_minutes)
               required_zones zone_fares window_minutes
             = (if required_zones \<le> paid_zones s then Inr (0, s)
                else Inr (max2 0 (trip_cost - already_paid_cost),
                          \<lparr>start_minute = start_minute s, paid_zones = required_zones\<rparr>))
         \<and> compute_fare_with_transfer_window (Some s) (start_minute s + window_minutes + 1)
               required_zones zone_fares window_minutes
             = Inr (trip_cost,
                    \<lparr>start_minute = start_minute s + window_minutes + 1, paid_zones = required_zones\<rparr>)"
proof -
  obtain trip_cost where tc: "fare_for_zones required_zones zone_fares = Inr trip_cost"
    using fare_for_zones_total [OF assms] by blast
  obtain already_paid_cost where ap: "fare_for_zones (paid_zones s) zone_fares = Inr already_paid_cost"
    using fare_for_zones_total [OF assms] by blast
  have inside: "compute_fare_with_transfer_window (Some s) (start_minute s + window_minutes)
        required_zones zone_fares window_minutes
      = (if required_zones \<le> paid_zones s then Inr (0, s)
         else Inr (max2 0 (trip_cost - already_paid_cost),
                   \<lparr>start_minute = start_minute s, paid_zones = required_zones\<rparr>))"
    by (rule within_window_result [OF tc ap]) simp
  have outside: "compute_fare_with_transfer_window (Some s) (start_minute s + window_minutes + 1)
        required_zones zone_fares window_minutes
      = Inr (trip_cost,
             \<lparr>start_minute = start_minute s + window_minutes + 1, paid_zones = required_zones\<rparr>)"
    by (rule new_session_result [OF tc]) simp
  from tc ap inside outside show ?thesis by blast
qed

theorem window_boundary_witness:
  "demo_fares \<noteq> []
   \<and> compute_fare_with_transfer_window (Some \<lparr>start_minute = 540, paid_zones = 1\<rparr>) 600 2 demo_fares 60
       = Inr (1.25, \<lparr>start_minute = 540, paid_zones = 2\<rparr>)
   \<and> compute_fare_with_transfer_window (Some \<lparr>start_minute = 540, paid_zones = 1\<rparr>) 601 2 demo_fares 60
       = Inr (3.75, \<lparr>start_minute = 601, paid_zones = 2\<rparr>)"
proof -
  have ne: "demo_fares \<noteq> []" by (simp add: demo_fares_def)
  have two: "fare_for_zones 2 demo_fares = Inr 3.75"
    by (simp add: fare_for_zones_def demo_fares_def)
  have one: "fare_for_zones 1 demo_fares = Inr 2.50"
    by (simp add: fare_for_zones_def demo_fares_def)
  obtain trip_cost already_paid_cost :: real
    where tc: "fare_for_zones 2 demo_fares = Inr trip_cost"
      and ap: "fare_for_zones 1 demo_fares = Inr already_paid_cost"
      and inside: "compute_fare_with_transfer_window (Some \<lparr>start_minute = 540, paid_zones = 1\<rparr>)
                     600 2 demo_fares 60
                   = Inr (max2 0 (trip_cost - already_paid_cost), \<lparr>start_minute = 540, paid_zones = 2\<rparr>)"
      and outside: "compute_fare_with_transfer_window (Some \<lparr>start_minute = 540, paid_zones = 1\<rparr>)
                     601 2 demo_fares 60
                   = Inr (trip_cost, \<lparr>start_minute = 601, paid_zones = 2\<rparr>)"
    using window_boundary [OF ne, of 2 "\<lparr>start_minute = 540, paid_zones = 1\<rparr>" 60] by auto
  have "trip_cost = 3.75" using tc two by (metis Inr_inject)
  moreover have "already_paid_cost = 2.50" using ap one by (metis Inr_inject)
  ultimately show ?thesis
    using inside outside ne by (simp add: max2_def)
qed

text \<open>
  Claim C4. With an active session and a non-empty fare table, a trip inside the window whose
  zone level the session already covers is charged exactly 0 and the session is returned
  unchanged.
\<close>

theorem covered_trip_is_free:
  assumes "zone_fares \<noteq> []"
    and "trip_time_minute - start_minute s \<le> window_minutes"
    and "required_zones \<le> paid_zones s"
  shows "compute_fare_with_transfer_window (Some s) trip_time_minute required_zones zone_fares window_minutes
       = Inr (0, s)"
proof -
  obtain trip_cost where tc: "fare_for_zones required_zones zone_fares = Inr trip_cost"
    using fare_for_zones_total [OF assms(1)] by blast
  obtain already_paid_cost where ap: "fare_for_zones (paid_zones s) zone_fares = Inr already_paid_cost"
    using fare_for_zones_total [OF assms(1)] by blast
  show ?thesis
    using within_window_result [OF tc ap assms(2)] assms(3) by simp
qed

theorem covered_trip_is_free_witness:
  "demo_fares \<noteq> [] \<and> (570::int) - 540 \<le> 60 \<and> (1::int) \<le> 2
   \<and> compute_fare_with_transfer_window (Some \<lparr>start_minute = 540, paid_zones = 2\<rparr>) 570 1 demo_fares 60
       = Inr (0, \<lparr>start_minute = 540, paid_zones = 2\<rparr>)"
proof -
  have ne: "demo_fares \<noteq> []" by (simp add: demo_fares_def)
  show ?thesis
    using covered_trip_is_free [OF ne, of 570 "\<lparr>start_minute = 540, paid_zones = 2\<rparr>" 60 1] ne
    by simp
qed

text \<open>
  Claim C5. With an active session and a non-empty fare table, a trip inside the window that
  needs a higher zone level than the session has paid for is charged
  \<open>max (0, fare required_zones - fare paid_zones)\<close>, and the returned session keeps the start
  minute and has \<open>paid_zones = required_zones\<close>.
\<close>

theorem upgrade_charges_difference:
  assumes "zone_fares \<noteq> []"
    and "trip_time_minute - start_minute s \<le> window_minutes"
    and "paid_zones s < required_zones"
  shows "\<exists>trip_cost already_paid_cost.
           fare_for_zones required_zones zone_fares = Inr trip_cost
         \<and> fare_for_zones (paid_zones s) zone_fares = Inr already_paid_cost
         \<and> compute_fare_with_transfer_window (Some s) trip_time_minute required_zones zone_fares
               window_minutes
             = Inr (max2 0 (trip_cost - already_paid_cost),
                    \<lparr>start_minute = start_minute s, paid_zones = required_zones\<rparr>)"
proof -
  obtain trip_cost where tc: "fare_for_zones required_zones zone_fares = Inr trip_cost"
    using fare_for_zones_total [OF assms(1)] by blast
  obtain already_paid_cost where ap: "fare_for_zones (paid_zones s) zone_fares = Inr already_paid_cost"
    using fare_for_zones_total [OF assms(1)] by blast
  have "compute_fare_with_transfer_window (Some s) trip_time_minute required_zones zone_fares
          window_minutes
        = Inr (max2 0 (trip_cost - already_paid_cost),
               \<lparr>start_minute = start_minute s, paid_zones = required_zones\<rparr>)"
    using within_window_result [OF tc ap assms(2)] assms(3) by simp
  with tc ap show ?thesis by blast
qed

theorem upgrade_charges_difference_witness:
  "demo_fares \<noteq> [] \<and> (560::int) - 540 \<le> 60 \<and> (1::int) < 2
   \<and> compute_fare_with_transfer_window (Some \<lparr>start_minute = 540, paid_zones = 1\<rparr>) 560 2 demo_fares 60
       = Inr (max 0 (3.75 - 2.50), \<lparr>start_minute = 540, paid_zones = 2\<rparr>)"
proof -
  have ne: "demo_fares \<noteq> []" by (simp add: demo_fares_def)
  have two: "fare_for_zones 2 demo_fares = Inr 3.75"
    by (simp add: fare_for_zones_def demo_fares_def)
  have one: "fare_for_zones 1 demo_fares = Inr 2.50"
    by (simp add: fare_for_zones_def demo_fares_def)
  obtain trip_cost already_paid_cost :: real
    where tc: "fare_for_zones 2 demo_fares = Inr trip_cost"
      and ap: "fare_for_zones 1 demo_fares = Inr already_paid_cost"
      and upgrade: "compute_fare_with_transfer_window (Some \<lparr>start_minute = 540, paid_zones = 1\<rparr>)
                     560 2 demo_fares 60
                   = Inr (max2 0 (trip_cost - already_paid_cost), \<lparr>start_minute = 540, paid_zones = 2\<rparr>)"
    using upgrade_charges_difference [OF ne, of 560 "\<lparr>start_minute = 540, paid_zones = 1\<rparr>" 60 2]
    by auto
  have "trip_cost = 3.75" using tc two by (metis Inr_inject)
  moreover have "already_paid_cost = 2.50" using ap one by (metis Inr_inject)
  ultimately show ?thesis
    using upgrade ne by (simp add: max2_def)
qed

text \<open>
  Claim C10. Whatever the prior session (or none), trip time, zone level and window length, on a
  non-empty fare table the engine returns a session whose \<open>paid_zones\<close> is at least the zone
  level of the trip just taken.
\<close>

theorem returned_session_covers_trip:
  assumes "zone_fares \<noteq> []"
  shows "\<exists>charge session'.
           compute_fare_with_transfer_window session trip_time_minute required_zones zone_fares
             window_minutes = Inr (charge, session')
         \<and> required_zones \<le> paid_zones session'"
proof -
  obtain trip_cost where tc: "fare_for_zones required_zones zone_fares = Inr trip_cost"
    using fare_for_zones_total [OF assms] by blast
  show ?thesis
  proof (cases "session = None \<or> window_minutes < trip_time_minute - start_minute (the session)")
    case True
    from new_session_result [OF tc True] show ?thesis by simp
  next
    case False
    then obtain s where s: "session = Some s" and inside: "trip_time_minute - start_minute s \<le> window_minutes"
      by (cases session) auto
    obtain already_paid_cost where ap: "fare_for_zones (paid_zones s) zone_fares = Inr already_paid_cost"
      using fare_for_zones_total [OF assms] by blast
    from within_window_result [OF tc ap inside] s show ?thesis
      by (cases "required_zones \<le> paid_zones s") simp_all
  qed
qed

theorem returned_session_covers_trip_witness:
  "demo_fares \<noteq> []
   \<and> (\<exists>charge session'.
         compute_fare_with_transfer_window (Some \<lparr>start_minute = 540, paid_zones = 2\<rparr>) 630 1
           demo_fares 60 = Inr (charge, session')
       \<and> 1 \<le> paid_zones session')"
proof -
  have ne: "demo_fares \<noteq> []" by (simp add: demo_fares_def)
  show ?thesis
    using returned_session_covers_trip [OF ne, of "Some \<lparr>start_minute = 540, paid_zones = 2\<rparr>" 630 1 60] ne
    by simp
qed

section \<open>Mode inference\<close>

lemma scan_segments_found:
  "map (\<lambda>(a, b). edge_info graph a b) segments = map Inr es \<Longrightarrow>
   scan_segments upper graph segments saw_train
     = Inr (saw_train \<or> (\<exists>e \<in> set es. upper (mode e) = ''TRAIN''))"
proof (induction segments arbitrary: es saw_train)
  case Nil
  then show ?case by simp
next
  case (Cons seg segments)
  obtain a b where seg: "seg = (a, b)" by (cases seg)
  from Cons.prems seg obtain e es' where es: "es = e # es'" and e: "edge_info graph a b = Inr e"
    and rest: "map (\<lambda>(a, b). edge_info graph a b) segments = map Inr es'"
    by (cases es) auto
  show ?case
    using Cons.IH [OF rest] by (auto simp: seg es e)
qed

lemma scan_segments_returns:
  "scan_segments upper graph segments saw_train = Inr r \<Longrightarrow>
   \<exists>es. map (\<lambda>(a, b). edge_info graph a b) segments = map Inr es"
proof (induction segments arbitrary: saw_train)
  case Nil
  then show ?case by simp
next
  case (Cons seg segments)
  obtain a b where seg: "seg = (a, b)" by (cases seg)
  from Cons.prems seg obtain e where e: "edge_info graph a b = Inr e"
    and rest: "scan_segments upper graph segments (if upper (mode e) = ''TRAIN'' then True else saw_train) = Inr r"
    by (auto split: sum.splits)
  from Cons.IH [OF rest] obtain es where "map (\<lambda>(a, b). edge_info graph a b) segments = map Inr es"
    by blast
  then have "map (\<lambda>(a, b). edge_info graph a b) (seg # segments) = map Inr (e # es)"
    by (simp add: seg e)
  then show ?case by blast
qed

text \<open>
  Claim C6. A path with fewer than two stations is classified train-like. For a longer path whose
  consecutive stations are all joined by a connection (\<open>es\<close> are the connections \<^verbatim>\<open>edge_info\<close>
  finds, one per segment), the trip is train-like as soon as one segment's mode label is
  \<^verbatim>\<open>TRAIN\<close> after upper-casing, however many other segments there are, and bus-like otherwise;
  and the answer bus-like is only given for such a path with no train-like segment.
\<close>

theorem mode_inference:
  "(length path < 2 \<longrightarrow> infer_mode_for_path upper graph path = Inr ''TRAIN'')
   \<and> (\<forall>es. 2 \<le> length path
            \<and> map (\<lambda>(a, b). edge_info graph a b) (zip path (drop 1 path)) = map Inr es
        \<longrightarrow> infer_mode_for_path upper graph path
              = Inr (if \<exists>e \<in> set es. upper (mode e) = ''TRAIN'' then ''TRAIN'' else ''BUS''))
   \<and> (infer_mode_for_path upper graph path = Inr ''BUS''
        \<longrightarrow> 2 \<le> length path
            \<and> (\<exists>es. map (\<lambda>(a, b). edge_info graph a b) (zip path (drop 1 path)) = map Inr es
                   \<and> (\<forall>e \<in> set es. upper (mode e) \<noteq> ''TRAIN'')))"
proof (intro conjI impI allI)
  assume "length path < 2"
  then show "infer_mode_for_path upper graph path = Inr ''TRAIN''"
    by (simp add: infer_mode_for_path_def)
next
  fix es
  assume "2 \<le> length path
      \<and> map (\<lambda>(a, b). edge_info graph a b) (zip path (drop 1 path)) = map Inr es"
  then show "infer_mode_for_path upper graph path
      = Inr (if \<exists>e \<in> set es. upper (mode e) = ''TRAIN'' then ''TRAIN'' else ''BUS'')"
    by (simp add: infer_mode_for_path_def scan_segments_found)
next
  assume bus: "infer_mode_for_path upper graph path = Inr ''BUS''"
  then show long: "2 \<le> length path"
    by (auto simp: infer_mode_for_path_def split: if_splits)
  from bus long obtain saw where saw: "scan_segments upper graph (zip path (drop 1 path)) False = Inr saw"
    by (auto simp: infer_mode_for_path_def split: sum.splits)
  from scan_segments_returns [OF saw] obtain es
    where es: "map (\<lambda>(a, b). edge_info graph a b) (zip path (drop 1 path)) = map Inr es"
    by blast
  have "infer_mode_for_path upper graph path
      = Inr (if \<exists>e \<in> set es. upper (mode e) = ''TRAIN'' then ''TRAIN'' else ''BUS'')"
    using long scan_segments_found [OF es, of upper False] by (simp add: infer_mode_for_path_def)
  with bus have "\<forall>e \<in> set es. upper (mode e) \<noteq> ''TRAIN''"
    by (auto split: if_splits)
  with es show "\<exists>es. map (\<lambda>(a, b). edge_info graph a b) (zip path (drop 1 path)) = map Inr es
      \<and> (\<forall>e \<in> set es. upper (mode e) \<noteq> ''TRAIN'')"
    by blast
qed

theorem mode_inference_witness:
  "infer_mode_for_path ascii_upper demo_graph [''A''] = Inr ''TRAIN''
   \<and> infer_mode_for_path ascii_upper demo_graph [''A'', ''B'', ''C''] = Inr ''TRAIN''
   \<and> infer_mode_for_path ascii_upper demo_graph [''A'', ''C''] = Inr ''BUS''"
proof -
  have short: "length [''A''] < 2" by simp
  have one: "infer_mode_for_path ascii_upper demo_graph [''A''] = Inr ''TRAIN''"
    using mode_inference [of "[''A'']" ascii_upper demo_graph] short by blast
  let ?ab = "\<lparr>to_id = ''B'', minutes = 4, line = ''Expo'', mode = ''train''\<rparr>"
  let ?bc = "\<lparr>to_id = ''C'', minutes = 3, line = ''99'', mode = ''bus''\<rparr>"
  let ?ac = "\<lparr>to_id = ''C'', minutes = 10, line = ''R5'', mode = ''Bus''\<rparr>"
  have segs_abc: "2 \<le> length [''A'', ''B'', ''C'']
      \<and> map (\<lambda>(a, b). edge_info demo_graph a b) (zip [''A'', ''B'', ''C''] (drop 1 [''A'', ''B'', ''C'']))
        = map Inr [?ab, ?bc]"
    by code_simp
  have train: "\<exists>e \<in> set [?ab, ?bc]. ascii_upper (mode e) = ''TRAIN''"
    by code_simp
  have "infer_mode_for_path ascii_upper demo_graph [''A'', ''B'', ''C'']
      = Inr (if \<exists>e \<in> set [?ab, ?bc]. ascii_upper (mode e) = ''TRAIN'' then ''TRAIN'' else ''BUS'')"
    by (rule mode_inference [of "[''A'', ''B'', ''C'']" ascii_upper demo_graph,
          THEN conjunct2, THEN conjunct1, rule_format, OF segs_abc])
  then have two: "infer_mode_for_path ascii_upper demo_graph [''A'', ''B'', ''C''] = Inr ''TRAIN''"
    by (simp only: train if_True)
  have segs_ac: "2 \<le> length [''A'', ''C'']
      \<and> map (\<lambda>(a, b). edge_info demo_graph a b) (zip [''A'', ''C''] (drop 1 [''A'', ''C'']))
        = map Inr [?ac]"
    by code_simp
  have no_train: "\<not> (\<exists>e \<in> set [?ac]. ascii_upper (mode e) = ''TRAIN'')"
    by code_simp
  have "infer_mode_for_path ascii_upper demo_graph [''A'', ''C'']
      = Inr (if \<exists>e \<in> set [?ac]. ascii_upper (mode e) = ''TRAIN'' then ''TRAIN'' else ''BUS'')"
    by (rule mode_inference [of "[''A'', ''C'']" ascii_upper demo_graph,
          THEN conjunct2, THEN conjunct1, rule_format, OF segs_ac])
  then have three: "infer_mode_for_path ascii_upper demo_graph [''A'', ''C''] = Inr ''BUS''"
    by (simp only: no_train if_False)
  from one two three show ?thesis by blast
qed

section \<open>Shortest path from a station to itself\<close>

text \<open>
  Claim C9. For a station \<open>s\<close> of the network, the finder called with start and goal both \<open>s\<close>
  returns the one-station path \<open>[s]\<close> with total minutes 0.
\<close>

theorem same_station:
  assumes "map_of graph s \<noteq> None"
  shows "dijkstra_path graph s s = Some (Inr (Some ([s], 0)))"
proof -
  have "search graph s [s \<mapsto> 0] [s \<mapsto> None] [(0, s)] {} = Inr ([s \<mapsto> 0], [s \<mapsto> None])"
    by (simp add: search.simps heappop_def)
  moreover have "walk_back [s \<mapsto> None] (Some s) [] = Some [s]"
    by (simp add: walk_back.simps)
  ultimately show ?thesis
    using assms by (simp add: dijkstra_path_def)
qed


theorem same_station_witness:
  "map_of demo_graph ''B'' \<noteq> None \<and> dijkstra_path demo_graph ''B'' ''B'' = Some (Inr (Some ([''B''], 0)))"
proof -
  have present: "map_of demo_graph ''B'' \<noteq> None" by code_simp
  from same_station [OF present] present show ?thesis by blast
qed

section \<open>Correctness of the shortest-path finder\<close>

subsection \<open>Walks\<close>

lemma total_minutes_simps [simp]:
  "total_minutes [] = 0"
  "total_minutes (e # es) = minutes e + total_minutes es"
  "total_minutes (es @ es') = total_minutes es + total_minutes es'"
  by (simp_all add: total_minutes_def)

lemma walk_append:
  "walk graph a es b \<Longrightarrow> walk graph b es' c \<Longrightarrow> walk graph a (es @ es') c"
  by (induction es arbitrary: a) auto

lemma walk_snoc:
  "walk graph a es b \<Longrightarrow> e \<in> set (connections graph b) \<Longrightarrow> walk graph a (es @ [e]) (to_id e)"
  by (rule walk_append) auto

lemma connection_nonneg:
  assumes "nonneg_minutes graph" and "e \<in> set (connections graph a)"
  shows "0 \<le> minutes e"
proof -
  from assms(2) obtain es where es: "map_of graph a = Some es" and e: "e \<in> set es"
    by (cases "map_of graph a") (auto simp: connections_def)
  from es have "(a, es) \<in> set graph" by (rule map_of_SomeD)
  with assms(1) e show ?thesis
    by (auto simp: nonneg_minutes_def list_all_iff)
qed

lemma walk_nonneg:
  "nonneg_minutes graph \<Longrightarrow> walk graph a es b \<Longrightarrow> 0 \<le> total_minutes es"
proof (induction es arbitrary: a)
  case Nil
  then show ?case by simp
next
  case (Cons e es)
  then have "0 \<le> minutes e" and "0 \<le> total_minutes es"
    by (auto intro: connection_nonneg)
  then show ?case by simp
qed

subsection \<open>The predecessor tree\<close>

lemma tree_walk_walk:
  "tree_walk graph s prev visited v es \<Longrightarrow> walk graph s es v"
  by (induction rule: tree_walk.induct) (auto intro: walk_snoc)

lemma tree_walk_mono:
  "tree_walk graph s prev visited v es \<Longrightarrow> visited \<subseteq> visited' \<Longrightarrow>
   tree_walk graph s prev visited' v es"
  by (induction rule: tree_walk.induct) (auto intro: tree_walk.intros)

lemma tree_walk_update:
  "tree_walk graph s prev visited v es \<Longrightarrow> w \<notin> visited \<Longrightarrow> w \<noteq> v \<Longrightarrow>
   tree_walk graph s (prev(w \<mapsto> x)) visited v es"
proof (induction rule: tree_walk.induct)
  case root
  then show ?case by (simp add: tree_walk.root)
next
  case (step u es v e)
  from step.hyps(2) step.prems(1) have "w \<noteq> u" by auto
  with step.IH step.prems(1) have "tree_walk graph s (prev(w \<mapsto> x)) visited u es" by blast
  moreover from step.hyps(3) step.prems(2) have "(prev(w \<mapsto> x)) v = Some (Some u)" by simp
  ultimately show ?case
    using step.hyps(2,4,5) by (blast intro: tree_walk.step)
qed

lemma walk_back_tree_walk:
  "tree_walk graph s prev visited v es \<Longrightarrow>
   walk_back prev (Some v) path = Some (path @ rev (s # map to_id es))"
proof (induction arbitrary: path rule: tree_walk.induct)
  case root
  then show ?case by (simp add: walk_back.simps)
next
  case (step u es v e)
  have "walk_back prev (Some v) path = walk_back prev (Some u) (path @ [v])"
    using step.hyps(3) by (subst walk_back.simps) simp
  also have "\<dots> = Some ((path @ [v]) @ rev (s # map to_id es))"
    by (rule step.IH)
  finally show ?case
    using step.hyps(5) by simp
qed

subsection \<open>The heap\<close>

lemma heappop_least:
  assumes "pq \<noteq> []" and "heappop pq = ((d, v), pq')"
  shows "(d, v) \<in> set pq"
    and "\<And>d' y. (d', y) \<in> set pq \<Longrightarrow> d \<le> d'"
    and "set pq' \<subseteq> set pq"
    and "\<And>entry. entry \<in> set pq \<Longrightarrow> entry \<noteq> (d, v) \<Longrightarrow> entry \<in> set pq'"
proof -
  from assms have m: "(d, v) = Min (set pq)" and pq': "pq' = remove1 (d, v) pq"
    by (auto simp: heappop_def min_list_Min)
  from m assms(1) show "(d, v) \<in> set pq"
    by (metis List.finite_set Min_in set_empty)
  show "d \<le> d'" if "(d', y) \<in> set pq" for d' y
  proof -
    from that have "(d, v) \<le> (d', y)" unfolding m by (intro Min_le) auto
    then show ?thesis by auto
  qed
  from pq' show "set pq' \<subseteq> set pq" by (simp add: set_remove1_subset)
  show "entry \<in> set pq'" if "entry \<in> set pq" "entry \<noteq> (d, v)" for entry
    using that pq' by simp
qed

subsection \<open>Popping an unvisited station\<close>

lemma frontier_station:
  assumes all_relaxed: "\<forall>u \<in> visited. \<forall>e \<in> set (connections graph u). relaxed dists u e"
    and nonneg: "nonneg_minutes graph"
  shows "walk graph x es v \<Longrightarrow> dists x = Some dx \<Longrightarrow> v \<notin> visited \<Longrightarrow>
         \<exists>y dy. y \<notin> visited \<and> dists y = Some dy \<and> dy \<le> dx + total_minutes es"
proof (induction es arbitrary: x dx)
  case Nil
  then show ?case by auto
next
  case (Cons e es)
  from Cons.prems(1) have e: "e \<in> set (connections graph x)" and rest: "walk graph (to_id e) es v"
    by auto
  show ?case
  proof (cases "x \<in> visited")
    case False
    have "0 \<le> total_minutes (e # es)"
      using nonneg Cons.prems(1) by (rule walk_nonneg)
    with False Cons.prems(2) show ?thesis by force
  next
    case True
    with all_relaxed e have "relaxed dists x e" by blast
    with Cons.prems(2) obtain dv where dv: "dists (to_id e) = Some dv" and le: "dv \<le> dx + minutes e"
      by (auto simp: relaxed_def)
    from Cons.IH [OF rest dv Cons.prems(3)] obtain y dy
      where "y \<notin> visited" "dists y = Some dy" "dy \<le> dv + total_minutes es"
      by blast
    with le show ?thesis by force
  qed
qed

lemma popped_distance:
  assumes inv: "search_inv graph s visited {} dists prev pq"
    and "pq \<noteq> []" and pop: "heappop pq = ((d, v), pq')" and unvisited: "v \<notin> visited"
  shows "dists v = Some d"
proof -
  have in_pq: "(d, v) \<in> set pq" using assms(2) pop by (rule heappop_least)
  with inv obtain d' where d': "dists v = Some d'" and le: "d' \<le> d"
    unfolding search_inv_def by fast
  from inv d' unvisited have "(d', v) \<in> set pq"
    unfolding search_inv_def by blast
  then have "d \<le> d'" using heappop_least(2) [OF assms(2) pop] by blast
  with d' le show ?thesis by simp
qed

lemma popped_shortest:
  assumes inv: "search_inv graph s visited {} dists prev pq"
    and nonneg: "nonneg_minutes graph"
    and "pq \<noteq> []" and pop: "heappop pq = ((d, v), pq')" and unvisited: "v \<notin> visited"
  shows "shortest graph s v d"
  unfolding shortest_def
proof (intro allI impI)
  fix es
  assume walk: "walk graph s es v"
  from inv have start: "dists s = Some 0"
    and all_relaxed: "\<forall>u \<in> visited. \<forall>e \<in> set (connections graph u). relaxed dists u e"
    unfolding search_inv_def by simp_all
  from frontier_station [OF all_relaxed nonneg walk start unvisited] obtain y dy
    where y: "y \<notin> visited" "dists y = Some dy" and le: "dy \<le> total_minutes es"
    by auto
  from inv y have "(dy, y) \<in> set pq"
    unfolding search_inv_def by blast
  then have "d \<le> dy" using heappop_least(2) [OF assms(3) pop] by blast
  with le show "d \<le> total_minutes es" by simp
qed

subsection \<open>The invariant, piece by piece\<close>

lemma search_invI:
  assumes "dists s = Some 0" and "prev s = Some None"
    and "\<And>v d. dists v = Some d \<Longrightarrow>
           \<exists>es. tree_walk graph s prev visited v es \<and> total_minutes es = d"
    and "\<And>u. u \<in> visited \<Longrightarrow> \<exists>d. dists u = Some d \<and> shortest graph s u d"
    and "\<And>u e. u \<in> visited \<Longrightarrow> e \<in> set (connections graph u) \<Longrightarrow>
           (u, e) \<in> pending \<or> relaxed dists u e"
    and "\<And>v d. dists v = Some d \<Longrightarrow> v \<notin> visited \<Longrightarrow> (d, v) \<in> set pq"
    and "\<And>d v. (d, v) \<in> set pq \<Longrightarrow> \<exists>d'. dists v = Some d' \<and> d' \<le> d"
  shows "search_inv graph s visited pending dists prev pq"
  unfolding search_inv_def using assms by (intro conjI) blast+

lemma search_inv_start:
  "search_inv graph s visited pending dists prev pq \<Longrightarrow> dists s = Some 0"
  "search_inv graph s visited pending dists prev pq \<Longrightarrow> prev s = Some None"
  unfolding search_inv_def by simp_all

lemma search_inv_tree:
  "search_inv graph s visited pending dists prev pq \<Longrightarrow> dists v = Some d \<Longrightarrow>
   \<exists>es. tree_walk graph s prev visited v es \<and> total_minutes es = d"
  unfolding search_inv_def by blast

lemma search_inv_settled:
  "search_inv graph s visited pending dists prev pq \<Longrightarrow> u \<in> visited \<Longrightarrow>
   \<exists>d. dists u = Some d \<and> shortest graph s u d"
  unfolding search_inv_def by blast

lemma search_inv_relaxed:
  "search_inv graph s visited pending dists prev pq \<Longrightarrow> u \<in> visited \<Longrightarrow>
   e \<in> set (connections graph u) \<Longrightarrow> (u, e) \<in> pending \<or> relaxed dists u e"
  unfolding search_inv_def by blast

lemma search_inv_queued:
  "search_inv graph s visited pending dists prev pq \<Longrightarrow> dists v = Some d \<Longrightarrow>
   v \<notin> visited \<Longrightarrow> (d, v) \<in> set pq"
  unfolding search_inv_def by blast

lemma search_inv_stale:
  "search_inv graph s visited pending dists prev pq \<Longrightarrow> (d, v) \<in> set pq \<Longrightarrow>
   \<exists>d'. dists v = Some d' \<and> d' \<le> d"
  unfolding search_inv_def by fast

subsection \<open>One pass of the inner loop\<close>

lemma relax_update_step:
  assumes inv: "search_inv graph s visited ({cur} \<times> set (e # es)) dists prev pq"
    and nonneg: "nonneg_minutes graph"
    and cur: "cur \<in> visited" "dists cur = Some cur_dist"
    and e: "e \<in> set (connections graph cur)"
    and upd: "case dists (to_id e) of None \<Rightarrow> True | Some d \<Rightarrow> cur_dist + minutes e < d"
  shows "search_inv graph s visited ({cur} \<times> set es)
           (dists(to_id e \<mapsto> cur_dist + minutes e)) (prev(to_id e \<mapsto> Some cur))
           (heappush pq (cur_dist + minutes e, to_id e))
         \<and> to_id e \<noteq> cur"
proof -
  define nd where "nd = cur_dist + minutes e"
  define w where "w = to_id e"
  from upd have upd': "\<And>d. dists w = Some d \<Longrightarrow> nd < d"
    by (simp add: nd_def w_def)
  obtain es_c where tree_c: "tree_walk graph s prev visited cur es_c"
    and total_c: "total_minutes es_c = cur_dist"
    using search_inv_tree [OF inv cur(2)] by blast
  have walk_w: "walk graph s (es_c @ [e]) w"
    unfolding w_def using tree_walk_walk [OF tree_c] e by (rule walk_snoc)
  have total_w: "total_minutes (es_c @ [e]) = nd"
    by (simp add: total_c nd_def)
  have nd_nonneg: "0 \<le> nd"
    using walk_nonneg [OF nonneg walk_w] total_w by simp
  have w_unvisited: "w \<notin> visited"
  proof
    assume "w \<in> visited"
    from search_inv_settled [OF inv this] obtain d
      where d: "dists w = Some d" and "shortest graph s w d" by blast
    with walk_w total_w have "d \<le> nd" by (auto simp: shortest_def)
    with upd' [OF d] show False by simp
  qed
  have w_not_start: "w \<noteq> s"
  proof
    assume "w = s"
    with search_inv_start(1) [OF inv] have "dists w = Some 0" by simp
    from upd' [OF this] nd_nonneg show False by simp
  qed
  from cur(1) w_unvisited have w_not_cur: "w \<noteq> cur" by auto
  have "search_inv graph s visited ({cur} \<times> set es) (dists(w \<mapsto> nd)) (prev(w \<mapsto> Some cur))
          (heappush pq (nd, w))"
  proof (rule search_invI)
    show "(dists(w \<mapsto> nd)) s = Some 0"
      using w_not_start search_inv_start(1) [OF inv] by simp
    show "(prev(w \<mapsto> Some cur)) s = Some None"
      using w_not_start search_inv_start(2) [OF inv] by simp
  next
    fix v d
    assume v: "(dists(w \<mapsto> nd)) v = Some d"
    show "\<exists>es'. tree_walk graph s (prev(w \<mapsto> Some cur)) visited v es' \<and> total_minutes es' = d"
    proof (cases "v = w")
      case True
      have "tree_walk graph s (prev(w \<mapsto> Some cur)) visited w (es_c @ [e])"
      proof (rule tree_walk.step)
        show "tree_walk graph s (prev(w \<mapsto> Some cur)) visited cur es_c"
          using tree_c w_unvisited w_not_cur by (rule tree_walk_update)
        show "cur \<in> visited" by (rule cur(1))
        show "(prev(w \<mapsto> Some cur)) w = Some (Some cur)" by simp
        show "e \<in> set (connections graph cur)" by (rule e)
        show "to_id e = w" by (simp add: w_def)
      qed
      moreover from True v have "d = nd" by simp
      ultimately show ?thesis using True total_w by blast
    next
      case False
      with v have "dists v = Some d" by simp
      from search_inv_tree [OF inv this] obtain es'
        where "tree_walk graph s prev visited v es'" and total: "total_minutes es' = d" by blast
      then have "tree_walk graph s (prev(w \<mapsto> Some cur)) visited v es'"
        using w_unvisited False by (intro tree_walk_update) auto
      with total show ?thesis by blast
    qed
  next
    fix u
    assume u: "u \<in> visited"
    with w_unvisited have "u \<noteq> w" by auto
    with search_inv_settled [OF inv u]
    show "\<exists>d. (dists(w \<mapsto> nd)) u = Some d \<and> shortest graph s u d" by simp
  next
    fix u e'
    assume u: "u \<in> visited" and e': "e' \<in> set (connections graph u)"
    from u w_unvisited have u_w: "u \<noteq> w" by auto
    have fresh: "relaxed (dists(w \<mapsto> nd)) u e'" if old: "relaxed dists u e'"
    proof -
      from old obtain du dv where du: "dists u = Some du" and dv: "dists (to_id e') = Some dv"
        and le: "dv \<le> du + minutes e'"
        by (auto simp: relaxed_def)
      show ?thesis
      proof (cases "to_id e' = w")
        case True
        with dv upd' have "nd < dv" by simp
        with le True du u_w show ?thesis by (simp add: relaxed_def)
      next
        case False
        with du dv le u_w show ?thesis by (simp add: relaxed_def)
      qed
    qed
    have this_edge: "relaxed (dists(w \<mapsto> nd)) cur e"
      using cur(2) w_not_cur by (simp add: relaxed_def w_def nd_def)
    from search_inv_relaxed [OF inv u e']
    show "(u, e') \<in> {cur} \<times> set es \<or> relaxed (dists(w \<mapsto> nd)) u e'"
      using fresh this_edge by auto
  next
    fix v d
    assume "(dists(w \<mapsto> nd)) v = Some d" and "v \<notin> visited"
    then show "(d, v) \<in> set (heappush pq (nd, w))"
      using search_inv_queued [OF inv, of v d]
      by (cases "v = w") (simp_all add: heappush_def)
  next
    fix d v
    assume "(d, v) \<in> set (heappush pq (nd, w))"
    then consider "(d, v) = (nd, w)" | "(d, v) \<in> set pq"
      by (auto simp: heappush_def)
    then show "\<exists>d'. (dists(w \<mapsto> nd)) v = Some d' \<and> d' \<le> d"
    proof cases
      case 1
      then show ?thesis by simp
    next
      case 2
      from search_inv_stale [OF inv 2] obtain d' where d': "dists v = Some d'" "d' \<le> d" by blast
      show ?thesis
      proof (cases "v = w")
        case True
        with d' upd' have "nd < d'" by simp
        with d' True show ?thesis by simp
      next
        case False
        with d' show ?thesis by simp
      qed
    qed
  qed
  with w_not_cur show ?thesis by (simp add: nd_def w_def)
qed

lemma relax_skip_step:
  assumes inv: "search_inv graph s visited ({cur} \<times> set (e # es)) dists prev pq"
    and cur: "dists cur = Some cur_dist"
    and skip: "\<not> (case dists (to_id e) of None \<Rightarrow> True | Some d \<Rightarrow> cur_dist + minutes e < d)"
  shows "search_inv graph s visited ({cur} \<times> set es) dists prev pq"
proof (rule search_invI)
  fix u e'
  assume u: "u \<in> visited" and e': "e' \<in> set (connections graph u)"
  from skip obtain d where "dists (to_id e) = Some d" "d \<le> cur_dist + minutes e"
    by (cases "dists (to_id e)") auto
  with cur have "relaxed dists cur e" by (simp add: relaxed_def)
  with search_inv_relaxed [OF inv u e']
  show "(u, e') \<in> {cur} \<times> set es \<or> relaxed dists u e'" by auto
qed (use inv in \<open>auto intro: search_inv_start search_inv_tree search_inv_settled
      search_inv_queued search_inv_stale\<close>)

lemma relax_preserves:
  assumes nonneg: "nonneg_minutes graph" and cur: "cur \<in> visited"
  shows "search_inv graph s visited ({cur} \<times> set es) dists prev pq \<Longrightarrow>
         dists cur = Some cur_dist \<Longrightarrow> set es \<subseteq> set (connections graph cur) \<Longrightarrow>
         relax cur cur_dist es (dists, prev, pq) = (dists', prev', pq') \<Longrightarrow>
         search_inv graph s visited {} dists' prev' pq'"
proof (induction es arbitrary: dists prev pq)
  case Nil
  then show ?case by simp
next
  case (Cons e es)
  from Cons.prems(3) have e: "e \<in> set (connections graph cur)"
    and es: "set es \<subseteq> set (connections graph cur)" by auto
  show ?case
  proof (cases "case dists (to_id e) of None \<Rightarrow> True | Some d \<Rightarrow> cur_dist + minutes e < d")
    case True
    from relax_update_step [OF Cons.prems(1) nonneg cur Cons.prems(2) e True]
    have inv': "search_inv graph s visited ({cur} \<times> set es)
           (dists(to_id e \<mapsto> cur_dist + minutes e)) (prev(to_id e \<mapsto> Some cur))
           (heappush pq (cur_dist + minutes e, to_id e))"
      and ne: "to_id e \<noteq> cur" by simp_all
    from ne Cons.prems(2) have cur': "(dists(to_id e \<mapsto> cur_dist + minutes e)) cur = Some cur_dist"
      by simp
    from Cons.prems(4) True
    have "relax cur cur_dist es (dists(to_id e \<mapsto> cur_dist + minutes e),
            prev(to_id e \<mapsto> Some cur), heappush pq (cur_dist + minutes e, to_id e))
          = (dists', prev', pq')"
      by (simp add: Let_def)
    from Cons.IH [OF inv' cur' es this] show ?thesis .
  next
    case False
    from relax_skip_step [OF Cons.prems(1) Cons.prems(2) False]
    have inv': "search_inv graph s visited ({cur} \<times> set es) dists prev pq" .
    from Cons.prems(4) False
    have "relax cur cur_dist es (dists, prev, pq) = (dists', prev', pq')"
      by (simp add: Let_def)
    from Cons.IH [OF inv' Cons.prems(2) es this] show ?thesis .
  qed
qed

subsection \<open>The outer loop\<close>

lemma skip_visited:
  assumes inv: "search_inv graph s visited {} dists prev pq"
    and "pq \<noteq> []" and pop: "heappop pq = ((d, v), pq')" and v: "v \<in> visited"
  shows "search_inv graph s visited {} dists prev pq'"
proof (rule search_invI)
  fix y dy
  assume y: "dists y = Some dy" "y \<notin> visited"
  with v have "(dy, y) \<noteq> (d, v)" by auto
  moreover from search_inv_queued [OF inv y] have "(dy, y) \<in> set pq" .
  ultimately show "(dy, y) \<in> set pq'"
    using heappop_least(4) [OF assms(2) pop] by blast
next
  fix d' y
  assume "(d', y) \<in> set pq'"
  with heappop_least(3) [OF assms(2) pop] have "(d', y) \<in> set pq" by blast
  then show "\<exists>d''. dists y = Some d'' \<and> d'' \<le> d'" by (rule search_inv_stale [OF inv])
qed (use inv in \<open>auto intro: search_inv_start search_inv_tree search_inv_settled
      dest: search_inv_relaxed\<close>)

lemma expand_unvisited:
  assumes inv: "search_inv graph s visited {} dists prev pq"
    and nonneg: "nonneg_minutes graph"
    and "pq \<noteq> []" and pop: "heappop pq = ((d, v), pq')" and v: "v \<notin> visited"
  shows "search_inv graph s (insert v visited) ({v} \<times> set (connections graph v)) dists prev pq'"
proof (rule search_invI)
  show "dists s = Some 0" "prev s = Some None"
    using inv by (rule search_inv_start)+
next
  fix y dy
  assume "dists y = Some dy"
  from search_inv_tree [OF inv this] obtain es
    where "tree_walk graph s prev visited y es" "total_minutes es = dy" by blast
  moreover have "visited \<subseteq> insert v visited" by auto
  ultimately show "\<exists>es. tree_walk graph s prev (insert v visited) y es \<and> total_minutes es = dy"
    by (blast intro: tree_walk_mono)
next
  fix u
  assume "u \<in> insert v visited"
  then show "\<exists>du. dists u = Some du \<and> shortest graph s u du"
    using popped_distance [OF inv assms(3) pop v] popped_shortest [OF inv nonneg assms(3) pop v]
      search_inv_settled [OF inv, of u]
    by auto
next
  fix u e
  assume "u \<in> insert v visited" and "e \<in> set (connections graph u)"
  then show "(u, e) \<in> {v} \<times> set (connections graph v) \<or> relaxed dists u e"
    using search_inv_relaxed [OF inv, of u e] by auto
next
  fix y dy
  assume y: "dists y = Some dy" "y \<notin> insert v visited"
  then have "(dy, y) \<noteq> (d, v)" by auto
  moreover from y have "(dy, y) \<in> set pq" by (intro search_inv_queued [OF inv]) auto
  ultimately show "(dy, y) \<in> set pq'"
    using heappop_least(4) [OF assms(3) pop] by blast
next
  fix d' y
  assume "(d', y) \<in> set pq'"
  with heappop_least(3) [OF assms(3) pop] have "(d', y) \<in> set pq" by blast
  then show "\<exists>d''. dists y = Some d'' \<and> d'' \<le> d'" by (rule search_inv_stale [OF inv])
qed

lemma search_result:
  "nonneg_minutes graph \<Longrightarrow> search_inv graph s visited {} dists prev pq \<Longrightarrow>
   search graph goal dists prev pq visited = Inr (dists', prev') \<Longrightarrow> dists' goal = Some d \<Longrightarrow>
   (\<exists>es. tree_walk graph s prev' UNIV goal es \<and> total_minutes es = d) \<and> shortest graph s goal d"
proof (induction graph goal dists prev pq visited rule: search.induct)
  case (1 graph goal dists prev pq visited)
  note nonneg = "1.prems"(1) and inv = "1.prems"(2) and result = "1.prems"(3) and found = "1.prems"(4)
  have finish: ?case if same: "dists' = dists" "prev' = prev" and short: "shortest graph s goal d"
  proof -
    from found same have "dists goal = Some d" by simp
    from search_inv_tree [OF inv this] obtain es
      where "tree_walk graph s prev visited goal es" "total_minutes es = d" by blast
    then have "tree_walk graph s prev' UNIV goal es \<and> total_minutes es = d"
      using same by (auto intro: tree_walk_mono)
    with short show ?thesis by blast
  qed
  show ?case
  proof (cases "pq = []")
    case True
    with result have same: "dists' = dists" "prev' = prev"
      by (simp_all add: search.simps)
    have "goal \<in> visited"
    proof (rule ccontr)
      assume "goal \<notin> visited"
      with found same search_inv_queued [OF inv, of goal d] have "(d, goal) \<in> set pq" by simp
      with True show False by simp
    qed
    from search_inv_settled [OF inv this] found same have "shortest graph s goal d" by auto
    with same show ?thesis by (rule finish)
  next
    case False
    obtain cur_dist cur pq1 where pop: "heappop pq = ((cur_dist, cur), pq1)"
      by (metis prod.exhaust)
    show ?thesis
    proof (cases "cur \<in> visited")
      case True
      from result False pop True
      have "search graph goal dists prev pq1 visited = Inr (dists', prev')"
        by (subst (asm) search.simps) simp
      with "1.IH"(1) [OF False pop [symmetric] refl True nonneg skip_visited [OF inv False pop True]]
        found
      show ?thesis by blast
    next
      case unvisited: False
      show ?thesis
      proof (cases "cur = goal")
        case True
        from result False pop unvisited True have same: "dists' = dists" "prev' = prev"
          by (subst (asm) search.simps, simp)+
        from popped_distance [OF inv False pop unvisited] found same True
        have "d = cur_dist" by simp
        with popped_shortest [OF inv nonneg False pop unvisited] True
        have "shortest graph s goal d" by simp
        with same show ?thesis by (rule finish)
      next
        case not_goal: False
        from result False pop unvisited not_goal obtain es
          where es: "map_of graph cur = Some es"
          by (subst (asm) search.simps) (auto split: option.splits)
        obtain dists1 prev1 pq2
          where relax: "relax cur cur_dist es (dists, prev, pq1) = (dists1, prev1, pq2)"
          by (metis prod.exhaust)
        from result False pop unvisited not_goal es relax
        have call: "search graph goal dists1 prev1 pq2 (insert cur visited) = Inr (dists', prev')"
          by (subst (asm) search.simps) simp
        from es have conn: "connections graph cur = es"
          by (simp add: connections_def)
        have "search_inv graph s (insert cur visited) ({cur} \<times> set es) dists prev pq1"
          using expand_unvisited [OF inv nonneg False pop unvisited] conn by simp
        then have inv1: "search_inv graph s (insert cur visited) {} dists1 prev1 pq2"
          using popped_distance [OF inv False pop unvisited] conn relax
          by (intro relax_preserves [OF nonneg, of cur "insert cur visited" s es dists prev pq1 cur_dist])
             auto
        from "1.IH"(2) [OF False pop [symmetric] refl unvisited not_goal es relax [symmetric] refl
            nonneg inv1 call found]
        show ?thesis .
      qed
    qed
  qed
qed

lemma initial_search_inv:
  "search_inv graph s {} {} [s \<mapsto> 0] [s \<mapsto> None] [(0, s)]"
proof (rule search_invI)
  fix v d
  assume "[s \<mapsto> 0::int] v = Some d"
  then have "v = s" "d = 0" by (auto split: if_splits)
  moreover have "tree_walk graph s [s \<mapsto> None] {} s []"
    by (rule tree_walk.root) simp
  ultimately show "\<exists>es. tree_walk graph s [s \<mapsto> None] {} v es \<and> total_minutes es = d"
    by (intro exI [of _ "[]"]) simp
next
  fix v d
  assume "[s \<mapsto> 0::int] v = Some d"
  then show "(d, v) \<in> set [(0, s)]" by (auto split: if_splits)
qed auto

subsection \<open>Segments as \<^verbatim>\<open>edge_info\<close> finds them\<close>

lemma first_edge_to_distinct:
  "distinct (map to_id es) \<Longrightarrow> e \<in> set es \<Longrightarrow> first_edge_to es (to_id e) = Inr e"
  by (induction es) auto

lemma edge_info_connection:
  assumes "simple_network graph" and "e \<in> set (connections graph a)"
  shows "edge_info graph a (to_id e) = Inr e"
proof -
  from assms(2) obtain es where es: "map_of graph a = Some es" and e: "e \<in> set es"
    by (cases "map_of graph a") (auto simp: connections_def)
  from es have "(a, es) \<in> set graph" by (rule map_of_SomeD)
  with assms(1) have "distinct (map to_id es)"
    by (auto simp: simple_network_def list_all_iff)
  with e es show ?thesis
    by (simp add: edge_info_def first_edge_to_distinct)
qed

lemma walk_segments:
  "simple_network graph \<Longrightarrow> walk graph a es b \<Longrightarrow>
   map (\<lambda>(x, y). edge_info graph x y) (zip (a # map to_id es) (map to_id es)) = map Inr es"
  by (induction es arbitrary: a) (auto simp: edge_info_connection)

text \<open>
  Claim C2. On a network without negative travel times, whenever the finder returns a path and a
  total, the path is the station sequence of a walk from start to goal whose connections (one
  per consecutive pair of stations) have minutes summing to the total, and no walk from start to
  goal has a strictly smaller sum. Where two stations are joined by parallel connections, the
  segment's minutes are those of the connection the finder relaxed, which by the second part is
  a cheapest one; on a simple network these connections are the ones \<^verbatim>\<open>edge_info\<close> finds
  for the consecutive pairs of the path.
\<close>

theorem dijkstra_path_shortest:
  assumes nonneg: "nonneg_minutes graph"
    and result: "dijkstra_path graph start_id goal_id = Some (Inr (Some (path, found_minutes)))"
  shows "(\<exists>es. walk graph start_id es goal_id \<and> path = start_id # map to_id es
              \<and> found_minutes = total_minutes es)
       \<and> (\<forall>es. walk graph start_id es goal_id \<longrightarrow> found_minutes \<le> total_minutes es)
       \<and> (simple_network graph \<longrightarrow>
            (\<exists>es. map (\<lambda>(a, b). edge_info graph a b) (zip path (drop 1 path)) = map Inr es
                 \<and> found_minutes = total_minutes es))"
proof -
  from result obtain dists prev trail
    where search: "search graph goal_id [start_id \<mapsto> 0] [start_id \<mapsto> None] [(0, start_id)] {}
                     = Inr (dists, prev)"
      and found: "dists goal_id = Some found_minutes"
      and trail: "walk_back prev (Some goal_id) [] = Some trail"
      and path: "path = rev trail"
    by (auto simp: dijkstra_path_def split: if_splits sum.splits option.splits)
  from search_result [OF nonneg initial_search_inv search found] obtain es
    where tree: "tree_walk graph start_id prev UNIV goal_id es"
      and minutes: "total_minutes es = found_minutes"
      and short: "shortest graph start_id goal_id found_minutes"
    by blast
  from walk_back_tree_walk [OF tree, of "[]"] trail have "trail = rev (start_id # map to_id es)"
    by simp
  with path have stations: "path = start_id # map to_id es" by simp
  from tree have walk: "walk graph start_id es goal_id" by (rule tree_walk_walk)
  have "map (\<lambda>(a, b). edge_info graph a b) (zip path (drop 1 path)) = map Inr es"
    if "simple_network graph"
    using walk_segments [OF that walk] stations by simp
  with walk stations minutes short show ?thesis
    by (auto simp: shortest_def)
qed

theorem dijkstra_path_shortest_witness:
  "nonneg_minutes demo_graph \<and> simple_network demo_graph
   \<and> dijkstra_path demo_graph ''A'' ''C'' = Some (Inr (Some ([''A'', ''B'', ''C''], 7)))
   \<and> (\<exists>es. walk demo_graph ''A'' es ''C'' \<and> [''A'', ''B'', ''C''] = ''A'' # map to_id es
          \<and> 7 = total_minutes es)
   \<and> 7 \<le> total_minutes [\<lparr>to_id = ''C'', minutes = 10, line = ''R5'', mode = ''Bus''\<rparr>]
   \<and> (\<exists>es. map (\<lambda>(a, b). edge_info demo_graph a b)
                (zip [''A'', ''B'', ''C''] (drop 1 [''A'', ''B'', ''C''])) = map Inr es
          \<and> 7 = total_minutes es)"
proof -
  have nonneg: "nonneg_minutes demo_graph" by code_simp
  have simple: "simple_network demo_graph" by code_simp
  have result: "dijkstra_path demo_graph ''A'' ''C'' = Some (Inr (Some ([''A'', ''B'', ''C''], 7)))"
    by code_simp
  have direct: "walk demo_graph ''A'' [\<lparr>to_id = ''C'', minutes = 10, line = ''R5'', mode = ''Bus''\<rparr>] ''C''"
    by code_simp
  note inst = dijkstra_path_shortest [OF nonneg result]
  from inst have "\<exists>es. walk demo_graph ''A'' es ''C'' \<and> [''A'', ''B'', ''C''] = ''A'' # map to_id es
      \<and> 7 = total_minutes es"
    by (rule conjunct1)
  moreover from inst direct
  have "7 \<le> total_minutes [\<lparr>to_id = ''C'', minutes = 10, line = ''R5'', mode = ''Bus''\<rparr>]"
    by blast
  moreover from inst simple
  have "\<exists>es. map (\<lambda>(a, b). edge_info demo_graph a b)
              (zip [''A'', ''B'', ''C''] (drop 1 [''A'', ''B'', ''C''])) = map Inr es
      \<and> 7 = total_minutes es"
    by blast
  ultimately show ?thesis using nonneg simple result by blast
qed

section \<open>The no-path result\<close>

lemma closed_network_target:
  assumes "closed_network graph" and "e \<in> set (connections graph a)"
  shows "map_of graph (to_id e) \<noteq> None"
proof -
  from assms(2) obtain es where es: "map_of graph a = Some es" and e: "e \<in> set es"
    by (cases "map_of graph a") (auto simp: connections_def)
  from es have "(a, es) \<in> set graph" by (rule map_of_SomeD)
  with assms(1) e show ?thesis
    by (auto simp: closed_network_def list_all_iff)
qed

lemma relax_reach:
  assumes closed: "closed_network graph" and cur: "walk graph s es_c cur"
  shows "reach_inv graph s dists pq \<Longrightarrow> set es \<subseteq> set (connections graph cur) \<Longrightarrow>
         relax cur cur_dist es (dists, prev, pq) = (dists', prev', pq') \<Longrightarrow>
         reach_inv graph s dists' pq'"
proof (induction es arbitrary: dists prev pq)
  case Nil
  then show ?case by simp
next
  case (Cons e es)
  from Cons.prems(2) have e: "e \<in> set (connections graph cur)"
    and es: "set es \<subseteq> set (connections graph cur)" by auto
  show ?case
  proof (cases "case dists (to_id e) of None \<Rightarrow> True | Some d \<Rightarrow> cur_dist + minutes e < d")
    case True
    have "walk graph s (es_c @ [e]) (to_id e)"
      using cur e by (rule walk_snoc)
    moreover have "map_of graph (to_id e) \<noteq> None"
      using closed e by (rule closed_network_target)
    ultimately have "reach_inv graph s (dists(to_id e \<mapsto> cur_dist + minutes e))
        (heappush pq (cur_dist + minutes e, to_id e))"
      using Cons.prems(1) unfolding reach_inv_def heappush_def by (auto split: if_splits)
    moreover from Cons.prems(3) True
    have "relax cur cur_dist es (dists(to_id e \<mapsto> cur_dist + minutes e),
            prev(to_id e \<mapsto> Some cur), heappush pq (cur_dist + minutes e, to_id e))
          = (dists', prev', pq')"
      by (simp add: Let_def)
    ultimately show ?thesis using es by (intro Cons.IH)
  next
    case False
    with Cons.prems(3) have "relax cur cur_dist es (dists, prev, pq) = (dists', prev', pq')"
      by (simp add: Let_def)
    with Cons.prems(1) es show ?thesis by (intro Cons.IH)
  qed
qed

lemma search_reach:
  "closed_network graph \<Longrightarrow> reach_inv graph s dists pq \<Longrightarrow>
   \<exists>dists' prev'. search graph goal dists prev pq visited = Inr (dists', prev')
      \<and> (\<forall>v d. dists' v = Some d \<longrightarrow> (\<exists>es. walk graph s es v))"
proof (induction graph goal dists prev pq visited rule: search.induct)
  case (1 graph goal dists prev pq visited)
  note closed = "1.prems"(1) and inv = "1.prems"(2)
  show ?case
  proof (cases "pq = []")
    case True
    then have "search graph goal dists prev pq visited = Inr (dists, prev)"
      by (simp add: search.simps)
    with inv show ?thesis by (simp add: reach_inv_def)
  next
    case False
    obtain cur_dist cur pq1 where pop: "heappop pq = ((cur_dist, cur), pq1)"
      by (metis prod.exhaust)
    have popped: "(cur_dist, cur) \<in> set pq" using False pop by (rule heappop_least)
    have rest: "set pq1 \<subseteq> set pq" using False pop by (rule heappop_least)
    from inv rest have inv1: "reach_inv graph s dists pq1"
      unfolding reach_inv_def by blast
    show ?thesis
    proof (cases "cur \<in> visited")
      case True
      from False pop True
      have "search graph goal dists prev pq visited = search graph goal dists prev pq1 visited"
        by (subst search.simps) simp
      with "1.IH"(1) [OF False pop [symmetric] refl True closed inv1] show ?thesis by simp
    next
      case unvisited: False
      show ?thesis
      proof (cases "cur = goal")
        case True
        with False pop unvisited
        have "search graph goal dists prev pq visited = Inr (dists, prev)"
          by (subst search.simps) simp
        with inv show ?thesis by (simp add: reach_inv_def)
      next
        case not_goal: False
        from inv popped obtain es d where es: "map_of graph cur = Some es"
          and d: "dists cur = Some d"
          unfolding reach_inv_def by fast
        from inv d obtain es_c where cur: "walk graph s es_c cur"
          unfolding reach_inv_def by blast
        obtain dists1 prev1 pq2
          where relax: "relax cur cur_dist es (dists, prev, pq1) = (dists1, prev1, pq2)"
          by (metis prod.exhaust)
        from es have "set es \<subseteq> set (connections graph cur)"
          by (simp add: connections_def)
        with relax_reach [OF closed cur inv1 _ relax]
        have inv2: "reach_inv graph s dists1 pq2" by blast
        from False pop unvisited not_goal es relax
        have "search graph goal dists prev pq visited
            = search graph goal dists1 prev1 pq2 (insert cur visited)"
          by (subst search.simps) simp
        with "1.IH"(2) [OF False pop [symmetric] refl unvisited not_goal es relax [symmetric] refl
            closed inv2]
        show ?thesis by simp
      qed
    qed
  qed
qed

lemma initial_reach_inv:
  "map_of graph s \<noteq> None \<Longrightarrow> reach_inv graph s [s \<mapsto> 0] [(0, s)]"
proof -
  assume present: "map_of graph s \<noteq> None"
  have "walk graph s [] s" by simp
  then have "\<exists>es. walk graph s es s" by blast
  with present show ?thesis
    unfolding reach_inv_def by (auto split: if_splits)
qed

lemma demo_graph_component:
  "walk demo_graph a es b \<Longrightarrow> a \<in> {''A'', ''B'', ''C''} \<Longrightarrow> b \<in> {''A'', ''B'', ''C''}"
proof (induction es arbitrary: a)
  case Nil
  then show ?case by simp
next
  case (Cons e es)
  from Cons.prems have target: "to_id e \<in> {''A'', ''B'', ''C''}"
    by (auto simp: connections_def demo_graph_def)
  from Cons.prems(1) have "walk demo_graph (to_id e) es b" by simp
  then show ?case using target by (rule Cons.IH)
qed

text \<open>
  Claim C8. If the start or the goal is not a station of the network, the finder returns the
  no-path result and raises nothing. The same result is returned when the search ends with the
  goal absent from the computed distances; in particular, on a network whose connections all
  lead to stations, whenever no walk leads from the start to the goal.
\<close>

theorem no_path_result:
  "(map_of graph start_id = None \<or> map_of graph goal_id = None
      \<longrightarrow> dijkstra_path graph start_id goal_id = Some (Inr None))
   \<and> (\<forall>dists prev.
         map_of graph start_id \<noteq> None \<and> map_of graph goal_id \<noteq> None
         \<and> search graph goal_id [start_id \<mapsto> 0] [start_id \<mapsto> None] [(0, start_id)] {}
             = Inr (dists, prev)
         \<and> dists goal_id = None
      \<longrightarrow> dijkstra_path graph start_id goal_id = Some (Inr None))
   \<and> (closed_network graph \<and> map_of graph start_id \<noteq> None \<and> map_of graph goal_id \<noteq> None
       \<and> (\<forall>es. \<not> walk graph start_id es goal_id)
      \<longrightarrow> dijkstra_path graph start_id goal_id = Some (Inr None))"
proof (intro conjI impI allI)
  assume "map_of graph start_id = None \<or> map_of graph goal_id = None"
  then show "dijkstra_path graph start_id goal_id = Some (Inr None)"
    by (simp add: dijkstra_path_def)
next
  fix dists prev
  assume "map_of graph start_id \<noteq> None \<and> map_of graph goal_id \<noteq> None
      \<and> search graph goal_id [start_id \<mapsto> 0] [start_id \<mapsto> None] [(0, start_id)] {}
          = Inr (dists, prev)
      \<and> dists goal_id = None"
  then show "dijkstra_path graph start_id goal_id = Some (Inr None)"
    by (simp add: dijkstra_path_def)
next
  assume a: "closed_network graph \<and> map_of graph start_id \<noteq> None \<and> map_of graph goal_id \<noteq> None
      \<and> (\<forall>es. \<not> walk graph start_id es goal_id)"
  then have closed: "closed_network graph" and start: "map_of graph start_id \<noteq> None"
    and goal: "map_of graph goal_id \<noteq> None" and apart: "\<forall>es. \<not> walk graph start_id es goal_id"
    by simp_all
  from search_reach [OF closed initial_reach_inv [OF start]] obtain dists prev
    where search: "search graph goal_id [start_id \<mapsto> 0] [start_id \<mapsto> None] [(0, start_id)] {}
                     = Inr (dists, prev)"
      and reach: "\<forall>v d. dists v = Some d \<longrightarrow> (\<exists>es. walk graph start_id es v)"
    by blast
  from reach apart have "dists goal_id = None"
    by (cases "dists goal_id") auto
  with start goal search show "dijkstra_path graph start_id goal_id = Some (Inr None)"
    by (simp add: dijkstra_path_def)
qed

theorem no_path_result_witness:
  "dijkstra_path demo_graph ''A'' ''Z'' = Some (Inr None)
   \<and> dijkstra_path demo_graph ''A'' ''D'' = Some (Inr None)
   \<and> dijkstra_path demo_graph ''B'' ''D'' = Some (Inr None)"
proof -
  have "map_of demo_graph ''Z'' = None" by code_simp
  then have unknown: "dijkstra_path demo_graph ''A'' ''Z'' = Some (Inr None)"
    using no_path_result [of demo_graph "''A''" "''Z''"] by blast
  have closed: "closed_network demo_graph" by code_simp
  have start: "map_of demo_graph ''A'' \<noteq> None" by code_simp
  have goal: "map_of demo_graph ''D'' \<noteq> None" by code_simp
  have apart: "\<forall>es. \<not> walk demo_graph ''A'' es ''D''"
    using demo_graph_component [of "''A''" _ "''D''"] by auto
  from closed start goal apart
  have unreachable: "dijkstra_path demo_graph ''A'' ''D'' = Some (Inr None)"
    using no_path_result [of demo_graph "''A''" "''D''"] by blast
  have start_b: "map_of demo_graph ''B'' \<noteq> None" by code_simp
  from search_reach [OF closed initial_reach_inv [OF start_b]] obtain dists prev
    where search: "search demo_graph ''D'' [''B'' \<mapsto> 0] [''B'' \<mapsto> None] [(0, ''B'')] {}
                     = Inr (dists, prev)"
      and reach: "\<forall>v d. dists v = Some d \<longrightarrow> (\<exists>es. walk demo_graph ''B'' es v)"
    by blast
  have "dists ''D'' = None"
    using reach demo_graph_component [of "''B''" _ "''D''"] by (cases "dists ''D''") auto
  with start_b goal search
  have absent: "dijkstra_path demo_graph ''B'' ''D'' = Some (Inr None)"
    using no_path_result [of demo_graph "''B''" "''D''"] by blast
  from unknown unreachable absent show ?thesis by blast
qed

section \<open>The finder returns\<close>

text \<open>
  On a network without negative travel times whose connections all lead to stations, every call
  of the finder returns: it raises nothing, and the path reconstruction ends.
\<close>

lemma dijkstra_path_returns:
  assumes nonneg: "nonneg_minutes graph" and closed: "closed_network graph"
  shows "\<exists>r. dijkstra_path graph start_id goal_id = Some (Inr r)"
proof (cases "map_of graph start_id = None \<or> map_of graph goal_id = None")
  case True
  then show ?thesis by (simp add: dijkstra_path_def)
next
  case False
  then have start: "map_of graph start_id \<noteq> None" by simp
  from search_reach [OF closed initial_reach_inv [OF start]] obtain dists prev
    where search: "search graph goal_id [start_id \<mapsto> 0] [start_id \<mapsto> None] [(0, start_id)] {}
                     = Inr (dists, prev)"
    by blast
  show ?thesis
  proof (cases "dists goal_id")
    case None
    with False search show ?thesis by (simp add: dijkstra_path_def)
  next
    case (Some d)
    from search_result [OF nonneg initial_search_inv search Some] obtain es
      where "tree_walk graph start_id prev UNIV goal_id es" by blast
    from walk_back_tree_walk [OF this, of "[]"] False search Some
    show ?thesis by (simp add: dijkstra_path_def)
  qed
qed

end
